theory Spec2Isabelle
  imports Main "HOL-Library.AList"
begin

section \<open>Python values shared by the two modules\<close>

text \<open>
  The arguments of the query builder are dynamically typed: \<open>Query.limit\<close> checks them
  with \<open>isinstance(_, int)\<close>. The values a caller can pass are modelled by a small
  universe. Python's \<open>bool\<close> is a subclass of \<open>int\<close>, so a boolean passes that check.
\<close>

datatype pyval = PNone | PBool bool | PInt int | PStr string

datatype error = AssertionError | IndexError

fun isinstance_int :: "pyval \<Rightarrow> bool" where
  "isinstance_int (PInt _) = True"
| "isinstance_int (PBool _) = True"
| "isinstance_int _ = False"

text \<open>Truthiness, as \<open>if x:\<close> tests it.\<close>

fun truthy :: "pyval \<Rightarrow> bool" where
  "truthy PNone = False"
| "truthy (PBool b) = b"
| "truthy (PInt i) = (i \<noteq> 0)"
| "truthy (PStr s) = (s \<noteq> [])"

text \<open>Decimal rendering of an integer, as \<open>str\<close> and \<open>format\<close> produce it.\<close>

definition digit_char :: "nat \<Rightarrow> char" where
  "digit_char d = char_of (48 + d)"

fun str_nat :: "nat \<Rightarrow> string" where
  "str_nat n = (if n < 10 then [digit_char n] else str_nat (n div 10) @ [digit_char (n mod 10)])"

declare str_nat.simps [simp del]

definition str_int :: "int \<Rightarrow> string" where
  "str_int i = (if i < 0 then CHR ''-'' # str_nat (nat (- i)) else str_nat (nat i))"

fun py_str :: "pyval \<Rightarrow> string" where
  "py_str PNone = ''None''"
| "py_str (PBool b) = (if b then ''True'' else ''False'')"
| "py_str (PInt i) = str_int i"
| "py_str (PStr s) = s"

section \<open>The query builder (\<open>query.py\<close>)\<close>

text \<open>
  One entry of \<open>_filter_conditions\<close> is the dictionary
  \<open>dict(condition=condition, joiner=joiner)\<close>; the joiner is \<open>None\<close>, \<open>'AND'\<close> or \<open>'OR'\<close>.
\<close>

record filter_condition =
  condition :: string
  joiner :: "string option"

record query =
  bind_vars :: "(string \<times> pyval) list"
  filter_conditions :: "filter_condition list"
  sort_columns :: "string list"
  limit_num :: pyval
  limit_start_record :: pyval

text \<open>\<open>Query.__init__\<close>, given the collection name of the collection class.\<close>

definition query_init :: "string \<Rightarrow> query" where
  "query_init collection_name =
     \<lparr> bind_vars = [(''@collection'', PStr collection_name)],
       filter_conditions = [],
       sort_columns = [],
       limit_num = PNone,
       limit_start_record = PInt 0 \<rparr>"

text \<open>\<open>dict.update(kwargs)\<close>: later keys overwrite, new keys are appended.\<close>

definition dict_update :: "('k \<times> 'v) list \<Rightarrow> ('k \<times> 'v) list \<Rightarrow> ('k \<times> 'v) list" where
  "dict_update d kw = foldl (\<lambda>acc (k, v). AList.update k v acc) d kw"

definition filter_q :: "string \<Rightarrow> bool \<Rightarrow> (string \<times> pyval) list \<Rightarrow> query \<Rightarrow> query" where
  "filter_q cond use_or kwargs q =
     (let j = (if length (filter_conditions q) > 0
               then Some (if use_or then ''OR'' else ''AND'') else None)
      in q\<lparr> filter_conditions := filter_conditions q @ [\<lparr> condition = cond, joiner = j \<rparr>],
            bind_vars := dict_update (bind_vars q) kwargs \<rparr>)"

definition sort_q :: "string \<Rightarrow> query \<Rightarrow> query" where
  "sort_q col_name q = q\<lparr> sort_columns := sort_columns q @ [col_name] \<rparr>"

definition limit :: "pyval \<Rightarrow> pyval \<Rightarrow> query \<Rightarrow> error + query" where
  "limit num_records start_from q =
     (if \<not> isinstance_int num_records then Inl AssertionError
      else if \<not> isinstance_int start_from then Inl AssertionError
      else Inr (q\<lparr> limit_num := num_records, limit_start_record := start_from \<rparr>))"

text \<open>The line \<open>_make_aql\<close> appends for one filter condition.\<close>

definition filter_line :: "filter_condition \<Rightarrow> string" where
  "filter_line fc =
     (let line = (case joiner fc of None \<Rightarrow> ''FILTER '' | Some j \<Rightarrow> j @ '' '')
      in (line @ ''rec.'' @ condition fc) @ '' '')"

definition make_aql :: "query \<Rightarrow> string" where
  "make_aql q =
     (let aql = ''FOR rec IN @@collection\<newline>'';
          aql = foldl (\<lambda>a fc. a @ filter_line fc) aql (filter_conditions q);
          aql = (if sort_columns q \<noteq> []
                 then butlast (foldl (\<lambda>a sc. a @ '' rec.'' @ sc @ '','') (aql @ ''\<newline> SORT'')
                                 (sort_columns q))
                 else aql);
          aql = (if truthy (limit_num q)
                 then aql @ ''\<newline> LIMIT '' @ py_str (limit_start_record q) @ '', ''
                          @ py_str (limit_num q) @ '' ''
                 else aql)
      in aql)"

text \<open>The query text \<open>Query.all\<close> hands to \<open>aql.execute\<close>.\<close>

definition all_aql :: "query \<Rightarrow> string" where
  "all_aql q = make_aql q @ ''\<newline> RETURN rec''"

section \<open>The change-tracked persister (\<open>database.py\<close>)\<close>

text \<open>
  A serialized document is a Python dictionary from field alias to JSON value, kept as an
  association list read with \<open>map_of\<close>. Entities are mutable objects that the caller and
  the persister share, and the same object may occur twice in a bulk input, so they live
  in a heap addressed by reference.

  Modelled from the spec: the entity model (\<open>collections.py\<close> is not among the sources).
  An entity carries its collection name (\<open>__collection__\<close>), its current field values in
  serialized form (what \<open>model_dump(mode="json", by_alias=True)\<close> returns, the identity
  fields under the aliases \<open>_key\<close> and \<open>_rev\<close>), the set \<open>_dirty\<close> of mutated field
  names, and the persister reference \<open>_db\<close>.
\<close>

type_synonym doc = "(string \<times> pyval) list"

record entity =
  collection :: string
  field_values :: doc
  dirty :: "string set"
  attached :: bool

text \<open>Modelled from the spec: \<open>serialize(entity)\<close>, the field-value mapping with aliased keys.\<close>

definition model_dump :: "entity \<Rightarrow> doc" where
  "model_dump e = field_values e"

text \<open>
  Modelled from the spec: the identity-field mutator. Assigning an attribute stores the
  value under the attribute's alias and records the attribute name in the dirty set.
\<close>

definition entity_setattr :: "string \<Rightarrow> string \<Rightarrow> pyval \<Rightarrow> entity \<Rightarrow> entity" where
  "entity_setattr attr alias v e =
     e\<lparr> field_values := AList.update alias v (field_values e), dirty := insert attr (dirty e) \<rparr>"

text \<open>Modelled from the spec: the identity-field accessor, \<open>getattr(entity, "key_", None)\<close>.\<close>

definition key_of :: "entity \<Rightarrow> pyval" where
  "key_of e = (case map_of (field_values e) ''_key'' of None \<Rightarrow> PNone | Some v \<Rightarrow> v)"

datatype hook_name = Pre_add | Post_add | Pre_update | Post_update | Pre_delete | Post_delete

text \<open>
  The trace records every hook dispatch and every call on a collection of the database
  client, in the order the persister makes them. \<open>self._db.collection(name)\<close> only builds
  a handle and is not recorded.
\<close>

datatype event =
    Dispatch nat hook_name
  | Has string pyval
  | Insert string doc
  | Insert_many string "doc list"
  | Update string doc
  | Update_many string "doc list"
  | Delete string pyval

text \<open>
  The collaborators: what the client's calls return, and what a hook does to the entity it
  is dispatched on. They are taken to return normally; an exception of theirs would
  propagate through the persister unchanged.
\<close>

record env =
  has_result :: "string \<Rightarrow> pyval \<Rightarrow> bool"
  insert_result :: "string \<Rightarrow> doc \<Rightarrow> doc"
  insert_many_result :: "string \<Rightarrow> doc list \<Rightarrow> doc list"
  update_result :: "string \<Rightarrow> doc \<Rightarrow> doc"
  update_many_result :: "string \<Rightarrow> doc list \<Rightarrow> doc list"
  hook :: "hook_name \<Rightarrow> entity \<Rightarrow> entity"

record world =
  heap :: "nat \<Rightarrow> entity"
  trace :: "event list"

definition emit :: "event \<Rightarrow> world \<Rightarrow> world" where
  "emit ev w = w\<lparr> trace := trace w @ [ev] \<rparr>"

definition set_entity :: "nat \<Rightarrow> entity \<Rightarrow> world \<Rightarrow> world" where
  "set_entity a e w = w\<lparr> heap := (heap w)(a := e) \<rparr>"

text \<open>\<open>setattr(entity, "_db", self)\<close> and \<open>entity._dirty.clear()\<close>.\<close>

definition attach :: "nat \<Rightarrow> world \<Rightarrow> world" where
  "attach a w = set_entity a ((heap w a)\<lparr> attached := True \<rparr>) w"

definition clear_dirty :: "nat \<Rightarrow> world \<Rightarrow> world" where
  "clear_dirty a w = set_entity a ((heap w a)\<lparr> dirty := {} \<rparr>) w"

text \<open>
  \<open>dispatch(entity, name, db=self)\<close>: the hook may update the fields of its entity (and
  with them the dirty set); the collection name is a class attribute and \<open>_db\<close> is private.
\<close>

definition dispatch :: "env \<Rightarrow> nat \<Rightarrow> hook_name \<Rightarrow> world \<Rightarrow> world" where
  "dispatch c a h w =
     (let e = heap w a; e' = hook c h e
      in emit (Dispatch a h) (set_entity a (e\<lparr> field_values := field_values e', dirty := dirty e' \<rparr>) w))"

definition entity_pre_process :: "doc \<Rightarrow> doc" where
  "entity_pre_process data =
     foldl (\<lambda>d k. if map_of d k = Some PNone then AList.delete k d else d)
       data [''_key'', ''_rev'']"

text \<open>
  \<open>_entity_post_process\<close>: \<open>_dirty.remove\<close> cannot raise, the assignment before it has
  just recorded the attribute.
\<close>

definition entity_post_process :: "entity \<Rightarrow> doc \<Rightarrow> entity" where
  "entity_post_process e result =
     foldl (\<lambda>e (attr, alias).
              (case map_of result alias of
                 None \<Rightarrow> e
               | Some v \<Rightarrow>
                   if v \<noteq> PNone
                   then (let e1 = entity_setattr attr alias v e
                         in e1\<lparr> dirty := dirty e1 - {attr} \<rparr>)
                   else e))
       e [(''key_'', ''_key''), (''rev_'', ''_rev'')]"

text \<open>The comprehension \<open>{k: v for k, v in data.items() if k == "_key" or k in entity._dirty}\<close>.\<close>

definition dirty_only :: "string set \<Rightarrow> doc \<Rightarrow> doc" where
  "dirty_only d data = filter (\<lambda>(k, v). k = ''_key'' \<or> k \<in> d) data"

definition update :: "env \<Rightarrow> nat \<Rightarrow> bool \<Rightarrow> world \<Rightarrow> nat \<times> world" where
  "update c a only_dirty w =
     (let cname = collection (heap w a) in
      if only_dirty \<and> dirty (heap w a) = {} then (a, w)
      else
        let w1 = dispatch c a Pre_update w;
            data = (if only_dirty
                    then dirty_only (dirty (heap w1 a)) (model_dump (heap w1 a))
                    else model_dump (heap w1 a));
            w2 = attach a w1;
            data = entity_pre_process data;
            res = update_result c cname data;
            w3 = emit (Update cname data) w2;
            w4 = clear_dirty a w3;
            w5 = set_entity a (entity_post_process (heap w4 a) res) w4;
            w6 = dispatch c a Post_update w5
        in (a, w6))"

definition add :: "env \<Rightarrow> nat \<Rightarrow> string option \<Rightarrow> world \<Rightarrow> (error + nat) \<times> world" where
  "add c a if_present w =
     (let insert_path = (\<lambda>w.
            let data_json = entity_pre_process (model_dump (heap w a));
                w1 = dispatch c a Pre_add w;
                cname = collection (heap w1 a);
                w2 = attach a w1;
                res = insert_result c cname data_json;
                w3 = emit (Insert cname data_json) w2;
                w4 = set_entity a (entity_post_process (heap w3 a) res) w3;
                w5 = clear_dirty a w4;
                w6 = dispatch c a Post_add w5
            in (Inr a, w6))
      in
      if if_present \<notin> {None, Some ''ignore'', Some ''update''} then (Inl AssertionError, w)
      else if if_present \<noteq> None \<and> if_present \<noteq> Some [] \<and> truthy (key_of (heap w a)) then
        (let w0 = emit (Has (collection (heap w a)) (key_of (heap w a))) w in
         if has_result c (collection (heap w a)) (key_of (heap w a)) then
           (if if_present = Some ''ignore'' then (Inr a, attach a w0)
            else if if_present = Some ''update''
            then (case update c a False w0 of (r, w') \<Rightarrow> (Inr r, w'))
            else insert_path w0)
         else insert_path w0)
      else insert_path w)"

text \<open>
  The dictionary \<open>collections\<close> of the bulk operations: collection name to the serialized
  payloads (\<open>entity_dict_list\<close>) and the entities (\<open>entity_obj_list\<close>) of that collection.
  A new key is appended, an existing key keeps its position.
\<close>

type_synonym groups = "(string \<times> doc list \<times> nat list) list"

datatype bulk_result = Entity nat | Collections groups

definition group_append :: "string \<Rightarrow> doc \<Rightarrow> nat \<Rightarrow> groups \<Rightarrow> groups" where
  "group_append cname data a colls =
     (let collection_dict = (case map_of colls cname of None \<Rightarrow> ([], []) | Some g \<Rightarrow> g)
      in AList.update cname (fst collection_dict @ [data], snd collection_dict @ [a]) colls)"

text \<open>The first loop of \<open>bulk_add\<close>; \<open>Inl\<close> is the early \<open>return entity\<close>.\<close>

fun bulk_add_collect :: "env \<Rightarrow> bool \<Rightarrow> nat list \<Rightarrow> groups \<Rightarrow> world \<Rightarrow> (nat + groups) \<times> world" where
  "bulk_add_collect c only_dirty [] colls w = (Inr colls, w)"
| "bulk_add_collect c only_dirty (a # as) colls w =
     (let data = model_dump (heap w a) in
      if only_dirty \<and> dirty (heap w a) = {} then (Inl a, w)
      else
        let data = (if only_dirty then dirty_only (dirty (heap w a)) data else data);
            data = entity_pre_process data;
            w1 = dispatch c a Pre_update w;
            colls' = group_append (collection (heap w1 a)) data a colls;
            w2 = clear_dirty a (attach a w1)
        in bulk_add_collect c only_dirty as colls' w2)"

text \<open>The first loop of \<open>bulk_update\<close>.\<close>

fun bulk_update_collect :: "env \<Rightarrow> bool \<Rightarrow> nat list \<Rightarrow> groups \<Rightarrow> world \<Rightarrow> (nat + groups) \<times> world" where
  "bulk_update_collect c only_dirty [] colls w = (Inr colls, w)"
| "bulk_update_collect c only_dirty (a # as) colls w =
     (if only_dirty \<and> dirty (heap w a) = {} then (Inl a, w)
      else
        let w1 = dispatch c a Pre_update w;
            data = (if only_dirty
                    then dirty_only (dirty (heap w1 a)) (model_dump (heap w1 a))
                    else model_dump (heap w1 a));
            data = entity_pre_process data;
            colls' = group_append (collection (heap w1 a)) data a colls;
            w2 = attach a w1
        in bulk_update_collect c only_dirty as colls' w2)"

text \<open>
  The inner loop over \<open>enumerate(entity_obj_list)\<close>; \<open>res[num]\<close> raises \<open>IndexError\<close> when
  the client returned fewer results than it was given documents.
\<close>

fun bulk_post :: "env \<Rightarrow> hook_name \<Rightarrow> doc list \<Rightarrow> nat \<Rightarrow> nat list \<Rightarrow> world \<Rightarrow> error option \<times> world" where
  "bulk_post c h res num [] w = (None, w)"
| "bulk_post c h res num (a # as) w =
     (let w1 = clear_dirty a w in
      if num < length res
      then bulk_post c h res (Suc num) as
             (dispatch c a h (set_entity a (entity_post_process (heap w1 a) (res ! num)) w1))
      else (Some IndexError, w1))"

text \<open>The second loop, one batched call for each entry of \<open>collections\<close>.\<close>

fun bulk_add_send :: "env \<Rightarrow> groups \<Rightarrow> world \<Rightarrow> error option \<times> world" where
  "bulk_add_send c [] w = (None, w)"
| "bulk_add_send c ((cname, entity_dict_list, entity_obj_list) # gs) w =
     (let res = insert_many_result c cname entity_dict_list;
          w1 = emit (Insert_many cname entity_dict_list) w
      in case bulk_post c Post_add res 0 entity_obj_list w1 of
           (Some err, w2) \<Rightarrow> (Some err, w2)
         | (None, w2) \<Rightarrow> bulk_add_send c gs w2)"

fun bulk_update_send :: "env \<Rightarrow> groups \<Rightarrow> world \<Rightarrow> error option \<times> world" where
  "bulk_update_send c [] w = (None, w)"
| "bulk_update_send c ((cname, entity_dict_list, entity_obj_list) # gs) w =
     (let res = update_many_result c cname entity_dict_list;
          w1 = emit (Update_many cname entity_dict_list) w
      in case bulk_post c Post_update res 0 entity_obj_list w1 of
           (Some err, w2) \<Rightarrow> (Some err, w2)
         | (None, w2) \<Rightarrow> bulk_update_send c gs w2)"

definition bulk_add :: "env \<Rightarrow> nat list \<Rightarrow> bool \<Rightarrow> world \<Rightarrow> (error + bulk_result) \<times> world" where
  "bulk_add c entity_list only_dirty w =
     (case bulk_add_collect c only_dirty entity_list [] w of
        (Inl a, w1) \<Rightarrow> (Inr (Entity a), w1)
      | (Inr colls, w1) \<Rightarrow>
          (case bulk_add_send c colls w1 of
             (Some err, w2) \<Rightarrow> (Inl err, w2)
           | (None, w2) \<Rightarrow> (Inr (Collections colls), w2)))"

definition bulk_update :: "env \<Rightarrow> nat list \<Rightarrow> bool \<Rightarrow> world \<Rightarrow> (error + bulk_result) \<times> world" where
  "bulk_update c entity_list only_dirty w =
     (case bulk_update_collect c only_dirty entity_list [] w of
        (Inl a, w1) \<Rightarrow> (Inr (Entity a), w1)
      | (Inr colls, w1) \<Rightarrow>
          (case bulk_update_send c colls w1 of
             (Some err, w2) \<Rightarrow> (Inl err, w2)
           | (None, w2) \<Rightarrow> (Inr (Collections colls), w2)))"

subsection \<open>Observations on a trace, example entities\<close>

text \<open>The documents an event hands to the database client.\<close>

fun payloads :: "event \<Rightarrow> doc list" where
  "payloads (Insert _ d) = [d]"
| "payloads (Update _ d) = [d]"
| "payloads (Insert_many _ ds) = ds"
| "payloads (Update_many _ ds) = ds"
| "payloads _ = []"

text \<open>The events that write to the database.\<close>

fun is_write :: "event \<Rightarrow> bool" where
  "is_write (Insert _ _) = True"
| "is_write (Update _ _) = True"
| "is_write (Insert_many _ _) = True"
| "is_write (Update_many _ _) = True"
| "is_write _ = False"

text \<open>A document that carries no identity field with the value \<open>None\<close>.\<close>

definition null_identity_free :: "doc \<Rightarrow> bool" where
  "null_identity_free d = (map_of d ''_key'' \<noteq> Some PNone \<and> map_of d ''_rev'' \<noteq> Some PNone)"

text \<open>No document of the trace, and no document collected for a batch, carries one.\<close>

definition clean_trace :: "event list \<Rightarrow> bool" where
  "clean_trace tr = list_all (\<lambda>ev. list_all null_identity_free (payloads ev)) tr"

definition groups_clean :: "groups \<Rightarrow> bool" where
  "groups_clean colls = list_all (\<lambda>g. list_all null_identity_free (fst (snd g))) colls"

definition example_env :: env where
  "example_env =
     \<lparr> has_result = (\<lambda>_ _. False),
       insert_result = (\<lambda>_ _. [(''_key'', PStr ''k1''), (''_rev'', PStr ''r1'')]),
       insert_many_result = (\<lambda>_ ds. map (\<lambda>_. [(''_key'', PStr ''k1''), (''_rev'', PStr ''r1'')]) ds),
       update_result = (\<lambda>_ _. [(''_key'', PStr ''k1''), (''_rev'', PStr ''r2'')]),
       update_many_result = (\<lambda>_ ds. map (\<lambda>_. [(''_key'', PStr ''k1''), (''_rev'', PStr ''r2'')]) ds),
       hook = (\<lambda>_ e. e) \<rparr>"

definition new_person :: entity where
  "new_person = \<lparr> collection = ''people'',
                  field_values = [(''_key'', PNone), (''_rev'', PNone), (''name'', PStr ''Ann'')],
                  dirty = {''name''}, attached = False \<rparr>"

definition clean_person :: entity where
  "clean_person = \<lparr> collection = ''people'',
                  field_values = [(''_key'', PStr ''k0''), (''_rev'', PStr ''r0''), (''name'', PStr ''Bob'')],
                  dirty = {}, attached = True \<rparr>"

definition new_city :: entity where
  "new_city = \<lparr> collection = ''cities'',
                  field_values = [(''_key'', PNone), (''_rev'', PNone), (''name'', PStr ''Rome'')],
                  dirty = {''name''}, attached = False \<rparr>"

text \<open>Two new entities at the references 0 and 1, a persisted, unmodified one elsewhere.\<close>

definition example_world :: world where
  "example_world = \<lparr> heap = (\<lambda>_. clean_person)(0 := new_person, 1 := new_city), trace = [] \<rparr>"

text \<open>The entry of \<open>collections\<close> for a collection name, empty when there is none.\<close>

definition group_of :: "groups \<Rightarrow> string \<Rightarrow> doc list \<times> nat list" where
  "group_of colls cname = (case map_of colls cname of None \<Rightarrow> ([], []) | Some g \<Rightarrow> g)"

lemmas example_defs = example_world_def example_env_def new_person_def new_city_def
  clean_person_def

section \<open>The graph-schema synchronizer (\<open>database.py\<close>)\<close>

record edge_definition =
  edge_collection :: string
  from_vertex_collections :: "string list"
  to_vertex_collections :: "string list"

text \<open>
  Modelled from the spec: the declared graph topology (\<open>graph.py\<close> is not among the
  sources). \<open>vertices\<close> and \<open>edges\<close> are the items of the two dictionaries, each
  collection class given by its collection name; a relation carries the collection names
  of its permitted source and target classes (\<open>edge_cols_from[rel_name]\<close>,
  \<open>edge_cols_to[rel_name]\<close>); \<open>graph_connections\<close> lists, for each declared connection,
  the collection name of its relation.
\<close>

record relation =
  rel_collection :: string
  cols_from :: "string list"
  cols_to :: "string list"

record graph =
  vertices :: "(string \<times> string) list"
  edges :: "(string \<times> relation) list"
  graph_connections :: "string list"

text \<open>
  What a synchronization pass reads from the database: the names \<open>self.collections()\<close>
  lists, the edge definitions of the live graph, and whether creating a collection fails.
\<close>

record live =
  existing_collection_names :: "string list"
  edge_definitions :: "edge_definition list"
  create_raises :: "string \<Rightarrow> bool"

datatype log_message =
    Collection_already_exists string
  | Creating_collection string
  | Creating_edge_collection string
  | Error_creating_collection string
  | Error_creating_edge_collection string
  | Creating_edge_definition edge_definition
  | Edge_definition_modified edge_definition edge_definition
  | Dropping_edge edge_definition

text \<open>
  The trace of a pass: its log records and the calls that change the database. The
  edge-definition calls of the graph client are taken to return normally.
\<close>

datatype sync_event =
    Log_debug log_message
  | Log_info log_message
  | Log_warning log_message
  | Create_collection string
  | Delete_collection string
  | Create_edge_definition edge_definition
  | Replace_edge_definition edge_definition
  | Delete_edge_definition string

definition is_same_edge :: "edge_definition \<Rightarrow> edge_definition \<Rightarrow> error + bool" where
  "is_same_edge e1 e2 =
     (if edge_collection e1 \<noteq> edge_collection e2 then Inl AssertionError
      else if length (to_vertex_collections e1) \<noteq> length (to_vertex_collections e2)
              \<or> length (from_vertex_collections e1) \<noteq> length (from_vertex_collections e2)
      then Inr False
      else if list_ex (\<lambda>cname. cname \<notin> set (to_vertex_collections e2))
                (to_vertex_collections e1)
      then Inr False
      else if list_ex (\<lambda>cname. cname \<notin> set (from_vertex_collections e2))
                (from_vertex_collections e1)
      then Inr False
      else Inr True)"

text \<open>\<open>dict(pairs)\<close>: the first occurrence of a key fixes its position, the last its value.\<close>

definition py_dict :: "('k \<times> 'v) list \<Rightarrow> ('k \<times> 'v) list" where
  "py_dict pairs = foldl (\<lambda>d (k, v). AList.update k v d) [] pairs"

definition existing_edges :: "live \<Rightarrow> (string \<times> edge_definition) list" where
  "existing_edges lv = py_dict (map (\<lambda>e. (edge_collection e, e)) (edge_definitions lv))"

text \<open>One iteration of the loop over \<open>graph_object.vertices.items()\<close>.\<close>

definition sync_vertex :: "live \<Rightarrow> string \<times> string \<Rightarrow> sync_event list" where
  "sync_vertex lv v =
     (let cname = snd v in
      if cname \<in> set (existing_collection_names lv)
      then [Log_debug (Collection_already_exists cname)]
      else [Log_info (Creating_collection cname), Create_collection cname]
           @ (if create_raises lv cname then [Log_warning (Error_creating_collection cname)]
              else []))"

text \<open>
  One iteration of the loop that creates missing edge collections. The call
  \<open>self.create_collection(rel_obj, edge=True)\<close> passes a keyword that
  \<open>create_collection(self, collection)\<close> does not take: it raises \<open>TypeError\<close> before
  anything is created, and the handler logs the warning.
\<close>

definition sync_edge_collection :: "live \<Rightarrow> string \<times> relation \<Rightarrow> sync_event list" where
  "sync_edge_collection lv r =
     (let cname = rel_collection (snd r) in
      if cname \<in> set (existing_collection_names lv)
      then [Log_debug (Collection_already_exists cname)]
      else [Log_info (Creating_edge_collection cname),
            Log_warning (Error_creating_edge_collection cname)])"

definition declared_edge :: "relation \<Rightarrow> edge_definition" where
  "declared_edge r =
     \<lparr> edge_collection = rel_collection r,
       from_vertex_collections = cols_from r,
       to_vertex_collections = cols_to r \<rparr>"

text \<open>One iteration of the loop over \<open>graph_object.edges.items()\<close>.\<close>

definition sync_relation ::
  "(string \<times> edge_definition) list \<Rightarrow> string \<times> relation \<Rightarrow> error + sync_event list" where
  "sync_relation existing r =
     (let edge_def = declared_edge (snd r) in
      case map_of existing (edge_collection edge_def) of
        None \<Rightarrow> Inr [Log_info (Creating_edge_definition edge_def), Create_edge_definition edge_def]
      | Some old \<Rightarrow>
          (case is_same_edge edge_def old of
             Inl err \<Rightarrow> Inl err
           | Inr same \<Rightarrow>
               if \<not> same
               then Inr [Log_info (Edge_definition_modified edge_def old),
                         Replace_edge_definition edge_def]
               else Inr []))"

fun sync_relations ::
  "(string \<times> edge_definition) list \<Rightarrow> (string \<times> relation) list \<Rightarrow> sync_event list \<times> error option" where
  "sync_relations existing [] = ([], None)"
| "sync_relations existing (r # rs) =
     (case sync_relation existing r of
        Inl err \<Rightarrow> ([], Some err)
      | Inr evs \<Rightarrow> (case sync_relations existing rs of (evs', res) \<Rightarrow> (evs @ evs', res)))"

text \<open>One iteration of the loop over \<open>existing_edges.items()\<close>.\<close>

definition sync_stale :: "graph \<Rightarrow> string \<times> edge_definition \<Rightarrow> sync_event list" where
  "sync_stale g ee =
     (if fst ee \<notin> set (graph_connections g)
      then [Log_warning (Dropping_edge (snd ee)), Delete_edge_definition (fst ee)]
      else [])"

text \<open>
  \<open>update_graph\<close>: the trace of the pass and the exception that ended it, if any. A
  failed assertion leaves the loop over the relations and skips the removal of stale
  edge definitions.
\<close>

definition update_graph :: "graph \<Rightarrow> live \<Rightarrow> sync_event list \<times> error option" where
  "update_graph g lv =
     (let tr = concat (map (sync_vertex lv) (vertices g))
               @ concat (map (sync_edge_collection lv) (edges g));
          existing = existing_edges lv
      in case sync_relations existing (edges g) of
           (evs, Some err) \<Rightarrow> (tr @ evs, Some err)
         | (evs, None) \<Rightarrow> (tr @ evs @ concat (map (sync_stale g) existing), None))"



text \<open>The calls of a trace that replace the edge definition of one edge collection.\<close>

fun is_replace_for :: "string \<Rightarrow> sync_event \<Rightarrow> bool" where
  "is_replace_for c (Replace_edge_definition e) = (edge_collection e = c)"
| "is_replace_for c _ = False"

subsection \<open>Example topologies\<close>

definition example_graph :: graph where
  "example_graph =
     \<lparr> vertices = [(''people'', ''people''), (''cities'', ''cities'')],
       edges = [(''lives_in'', \<lparr> rel_collection = ''lives_in'', cols_from = [''people''],
                                 cols_to = [''cities''] \<rparr>),
                (''knows'', \<lparr> rel_collection = ''knows'', cols_from = [''people''],
                              cols_to = [''people''] \<rparr>)],
       graph_connections = [''lives_in'', ''knows''] \<rparr>"

definition example_live :: live where
  "example_live =
     \<lparr> existing_collection_names = [''people'', ''lives_in''],
       edge_definitions =
         [\<lparr> edge_collection = ''lives_in'', from_vertex_collections = [''people'', ''towns''],
            to_vertex_collections = [''cities''] \<rparr>,
          \<lparr> edge_collection = ''old_edge'', from_vertex_collections = [''people''],
            to_vertex_collections = [''cities''] \<rparr>],
       create_raises = (\<lambda>_. False) \<rparr>"

definition dup_graph :: graph where
  "dup_graph =
     \<lparr> vertices = [(''people'', ''people''), (''cities'', ''cities'')],
       edges = [(''lives_in'', \<lparr> rel_collection = ''lives_in'',
                                 cols_from = [''people'', ''people''],
                                 cols_to = [''cities''] \<rparr>)],
       graph_connections = [''lives_in''] \<rparr>"

definition dup_live :: live where
  "dup_live =
     \<lparr> existing_collection_names = [''people'', ''cities'', ''lives_in''],
       edge_definitions = [\<lparr> edge_collection = ''lives_in'',
                              from_vertex_collections = [''people''],
                              to_vertex_collections = [''cities''] \<rparr>],
       create_raises = (\<lambda>_. False) \<rparr>"

section \<open>Properties of the query builder\<close>

lemma foldl_append_lines: "foldl (\<lambda>a x. a @ f x) a xs = a @ concat (map f xs)"
  by (induction xs arbitrary: a) simp_all

lemma filter_fold_conditions:
  "filter_conditions q \<noteq> [] \<Longrightarrow>
   filter_conditions (foldl (\<lambda>q (c, use_or, kw). filter_q c use_or kw q) q cs) =
     filter_conditions q
     @ map (\<lambda>(c, use_or, kw). \<lparr> condition = c, joiner = Some (if use_or then ''OR'' else ''AND'') \<rparr>) cs"
  by (induction cs arbitrary: q) (auto simp: filter_q_def)

lemma filter_fold_other:
  "sort_columns (foldl (\<lambda>q (c, use_or, kw). filter_q c use_or kw q) q cs) = sort_columns q \<and>
   limit_num (foldl (\<lambda>q (c, use_or, kw). filter_q c use_or kw q) q cs) = limit_num q \<and>
   limit_start_record (foldl (\<lambda>q (c, use_or, kw). filter_q c use_or kw q) q cs)
     = limit_start_record q"
  by (induction cs arbitrary: q) (auto simp: filter_q_def)

text \<open>
  C7. A chain of \<open>filter\<close> calls on a fresh builder, each call given by its condition, its
  \<open>_or\<close> flag and its keyword arguments: the first stored condition has no joiner, every
  later one has \<open>OR\<close> if its call passed \<open>_or\<close> and \<open>AND\<close> otherwise, and the compiled text
  opens the first predicate with \<open>FILTER\<close> and each later one with that joiner.
\<close>

theorem filter_chain_joiners:
  "filter_conditions
     (foldl (\<lambda>q (c, use_or, kw). filter_q c use_or kw q) (query_init n) ((c0, o0, k0) # cs)) =
     \<lparr> condition = c0, joiner = None \<rparr> #
     map (\<lambda>(c, use_or, kw). \<lparr> condition = c, joiner = Some (if use_or then ''OR'' else ''AND'') \<rparr>) cs
   \<and> make_aql
     (foldl (\<lambda>q (c, use_or, kw). filter_q c use_or kw q) (query_init n) ((c0, o0, k0) # cs)) =
     ''FOR rec IN @@collection\<newline>'' @ (''FILTER rec.'' @ c0 @ '' '') @
     concat (map (\<lambda>(c, use_or, kw). (if use_or then ''OR'' else ''AND'') @ '' rec.'' @ c @ '' '') cs)"
proof -
  let ?q1 = "filter_q c0 o0 k0 (query_init n)"
  let ?q = "foldl (\<lambda>q (c, use_or, kw). filter_q c use_or kw q) ?q1 cs"
  have q1: "filter_conditions ?q1 = [\<lparr> condition = c0, joiner = None \<rparr>]"
    by (simp add: filter_q_def query_init_def)
  have fc: "filter_conditions ?q = \<lparr> condition = c0, joiner = None \<rparr> #
     map (\<lambda>(c, use_or, kw). \<lparr> condition = c, joiner = Some (if use_or then ''OR'' else ''AND'') \<rparr>) cs"
    using filter_fold_conditions [of ?q1 cs] q1 by simp
  have oth: "sort_columns ?q = [] \<and> limit_num ?q = PNone"
    using filter_fold_other [of ?q1 cs] by (simp add: filter_q_def query_init_def)
  have "make_aql ?q
          = ''FOR rec IN @@collection\<newline>'' @ concat (map filter_line (filter_conditions ?q))"
    using oth by (simp add: make_aql_def foldl_append_lines)
  also have "\<dots> = ''FOR rec IN @@collection\<newline>'' @ (''FILTER rec.'' @ c0 @ '' '') @
     concat (map (\<lambda>(c, use_or, kw). (if use_or then ''OR'' else ''AND'') @ '' rec.'' @ c @ '' '') cs)"
    unfolding fc by (simp add: filter_line_def comp_def split_def)
  finally show ?thesis using fc by simp
qed

lemma sort_keys_nonempty:
  "xs \<noteq> [] \<Longrightarrow> concat (map (\<lambda>sc. '' rec.'' @ sc @ '','') xs) \<noteq> []"
  by (cases xs) simp_all

text \<open>
  The text sent for execution, for every builder state: the iteration clause, the filter
  lines in accumulation order, one \<open>SORT\<close> clause with the keys comma-joined in call order
  when there are sort keys, one \<open>LIMIT\<close> clause (offset, then count) when the stored count
  is truthy, and the \<open>RETURN\<close> clause.
\<close>

lemma all_aql_clause_order:
  "all_aql q =
     ''FOR rec IN @@collection\<newline>''
     @ concat (map filter_line (filter_conditions q))
     @ (if sort_columns q = [] then []
        else ''\<newline> SORT''
             @ butlast (concat (map (\<lambda>sc. '' rec.'' @ sc @ '','') (sort_columns q))))
     @ (if truthy (limit_num q)
        then ''\<newline> LIMIT '' @ py_str (limit_start_record q) @ '', ''
             @ py_str (limit_num q) @ '' ''
        else [])
     @ ''\<newline> RETURN rec''"
proof (cases "sort_columns q = []")
  case True
  then show ?thesis by (simp add: all_aql_def make_aql_def foldl_append_lines)
next
  case False
  from sort_keys_nonempty [OF False]
  have ne: "concat (map (\<lambda>sc. '' rec.'' @ sc @ '','') (sort_columns q)) \<noteq> []" .
  show ?thesis using False ne
    by (simp add: all_aql_def make_aql_def foldl_append_lines butlast_append
          del: concat_eq_Nil_conv)
qed

text \<open>
  C8. The clause order holds whenever a limit clause is due, but a limit that was set is
  not always compiled: \<open>limit(0)\<close> is accepted and stored, and the test \<open>if self._limit:\<close>
  then treats the count 0 like the unset \<open>None\<close>. The compiled text has no \<open>LIMIT\<close> clause
  and is the text of the builder on which no limit was set.
\<close>

theorem limit_zero_compiles_no_limit_clause:
  "limit (PInt 0) (PInt 0) (query_init ''users'')
     = Inr ((query_init ''users'')\<lparr> limit_num := PInt 0, limit_start_record := PInt 0 \<rparr>)
   \<and> all_aql ((query_init ''users'')\<lparr> limit_num := PInt 0, limit_start_record := PInt 0 \<rparr>)
     = ''FOR rec IN @@collection\<newline>\<newline> RETURN rec''
   \<and> all_aql (query_init ''users'') = ''FOR rec IN @@collection\<newline>\<newline> RETURN rec''"
  by (simp add: limit_def query_init_def all_aql_def make_aql_def)

text \<open>
  C9, as the claim states it, fails: \<open>limit(-5, -10)\<close> raises nothing, stores both numbers
  and compiles them into the limit clause.
\<close>

theorem limit_negative_accepted:
  "limit (PInt (- 5)) (PInt (- 10)) (query_init ''users'')
     = Inr ((query_init ''users'')\<lparr> limit_num := PInt (- 5), limit_start_record := PInt (- 10) \<rparr>)
   \<and> all_aql ((query_init ''users'')\<lparr> limit_num := PInt (- 5), limit_start_record := PInt (- 10) \<rparr>)
     = ''FOR rec IN @@collection\<newline>\<newline> LIMIT -10, -5 \<newline> RETURN rec''"
  apply (rule conjI)
   apply (simp add: limit_def)
  apply code_simp
  done

text \<open>
  C9, amended. \<open>limit\<close> validates the type of its arguments only: it raises
  \<open>AssertionError\<close> exactly when the count or the offset is not an \<open>int\<close>, and stores any
  two integers, negative ones included, as they are.
\<close>

theorem limit_checks_type_only:
  "limit (PInt n) (PInt s) q = Inr (q\<lparr> limit_num := PInt n, limit_start_record := PInt s \<rparr>)
   \<and> limit a b q = (if isinstance_int a \<and> isinstance_int b
                     then Inr (q\<lparr> limit_num := a, limit_start_record := b \<rparr>)
                     else Inl AssertionError)"
  by (simp add: limit_def)

section \<open>Properties of the graph-schema synchronizer\<close>

lemma py_dict_fold_distinct:
  "distinct (map fst d) \<Longrightarrow> distinct (map fst (foldl (\<lambda>d (k, v). AList.update k v d) d ps))"
  by (induction ps arbitrary: d) (auto simp: distinct_update)

lemma py_dict_distinct: "distinct (map fst (py_dict ps))"
  unfolding py_dict_def by (rule py_dict_fold_distinct) simp

lemma py_dict_fold_keys:
  "fst ` set (foldl (\<lambda>d (k, v). AList.update k v d) d ps) = fst ` set d \<union> fst ` set ps"
proof (induction ps arbitrary: d)
  case Nil then show ?case by simp
next
  case (Cons p ps)
  obtain k' v' where p: "p = (k', v')" by (cases p)
  show ?case using Cons.IH [of "AList.update k' v' d"] by (auto simp: p dom_update)
qed

lemma py_dict_fold_inv:
  "(\<And>k v. map_of d k = Some v \<Longrightarrow> P k v) \<Longrightarrow> (\<And>k v. (k, v) \<in> set ps \<Longrightarrow> P k v) \<Longrightarrow>
   map_of (foldl (\<lambda>d (k, v). AList.update k v d) d ps) k = Some v \<Longrightarrow> P k v"
proof (induction ps arbitrary: d)
  case Nil then show ?case by simp
next
  case (Cons p ps)
  obtain k' v' where p: "p = (k', v')" by (cases p)
  have step: "\<And>k v. map_of (AList.update k' v' d) k = Some v \<Longrightarrow> P k v"
    using Cons.prems(1) Cons.prems(2) [of k' v'] by (auto simp: update_conv' p split: if_splits)
  show ?case
    by (rule Cons.IH [of "AList.update k' v' d"]) (use step Cons.prems p in auto)
qed

lemma existing_edges_distinct: "distinct (map fst (existing_edges lv))"
  by (simp add: existing_edges_def py_dict_distinct)

lemma existing_edges_key:
  assumes "map_of (existing_edges lv) k = Some e"
  shows "edge_collection e = k \<and> e \<in> set (edge_definitions lv)"
  using assms unfolding existing_edges_def py_dict_def
  by (rule py_dict_fold_inv [where P = "\<lambda>k e. edge_collection e = k \<and> e \<in> set (edge_definitions lv)", rotated 2]) auto

lemma existing_edges_keys:
  "fst ` set (existing_edges lv) = edge_collection ` set (edge_definitions lv)"
  by (simp add: existing_edges_def py_dict_def py_dict_fold_keys image_image)


lemma is_same_edge_eq:
  "edge_collection e1 = edge_collection e2 \<Longrightarrow>
   is_same_edge e1 e2 =
     Inr (length (to_vertex_collections e1) = length (to_vertex_collections e2)
          \<and> length (from_vertex_collections e1) = length (from_vertex_collections e2)
          \<and> set (to_vertex_collections e1) \<subseteq> set (to_vertex_collections e2)
          \<and> set (from_vertex_collections e1) \<subseteq> set (from_vertex_collections e2))"
  by (auto simp: is_same_edge_def list_ex_iff)

lemma distinct_same_length_subset:
  assumes "distinct xs" "distinct ys"
  shows "(length xs = length ys \<and> set xs \<subseteq> set ys) = (set xs = set ys)"
proof
  assume h: "length xs = length ys \<and> set xs \<subseteq> set ys"
  then have "card (set xs) = card (set ys)" using assms by (simp add: distinct_card)
  with h show "set xs = set ys" by (simp add: card_subset_eq)
next
  assume "set xs = set ys"
  then show "length xs = length ys \<and> set xs \<subseteq> set ys"
    using assms by (metis distinct_card order_refl)
qed

lemma is_same_edge_distinct:
  assumes "edge_collection e1 = edge_collection e2"
    "distinct (to_vertex_collections e1)" "distinct (to_vertex_collections e2)"
    "distinct (from_vertex_collections e1)" "distinct (from_vertex_collections e2)"
  shows "is_same_edge e1 e2 =
     Inr (set (from_vertex_collections e1) = set (from_vertex_collections e2)
          \<and> set (to_vertex_collections e1) = set (to_vertex_collections e2))"
  using distinct_same_length_subset [OF assms(2,3)] distinct_same_length_subset [OF assms(4,5)]
  by (auto simp: is_same_edge_eq [OF assms(1)])

lemma sync_relation_returns:
  "\<exists>evs. sync_relation (existing_edges lv) r = Inr evs"
proof (cases "map_of (existing_edges lv) (rel_collection (snd r))")
  case None
  then show ?thesis by (simp add: sync_relation_def Let_def declared_edge_def)
next
  case (Some old)
  from existing_edges_key [OF Some]
  have "edge_collection (declared_edge (snd r)) = edge_collection old"
    by (simp add: declared_edge_def)
  from is_same_edge_eq [OF this] show ?thesis
    using Some by (simp add: sync_relation_def Let_def declared_edge_def)
qed

lemma sync_relations_returns:
  "sync_relations (existing_edges lv) rs =
     (concat (map (\<lambda>r. projr (sync_relation (existing_edges lv) r)) rs), None)"
proof (induction rs)
  case Nil then show ?case by simp
next
  case (Cons r rs)
  obtain evs where "sync_relation (existing_edges lv) r = Inr evs"
    using sync_relation_returns by blast
  then show ?case using Cons.IH by simp
qed

lemma update_graph_trace:
  "update_graph g lv =
     (concat (map (sync_vertex lv) (vertices g))
      @ concat (map (sync_edge_collection lv) (edges g))
      @ concat (map (\<lambda>r. projr (sync_relation (existing_edges lv) r)) (edges g))
      @ concat (map (sync_stale g) (existing_edges lv)), None)"
  by (simp add: update_graph_def Let_def sync_relations_returns)

lemma replace_in_relation:
  assumes "map_of (existing_edges lv) (rel_collection (snd r)) = Some old"
  shows "filter (is_replace_for c) (projr (sync_relation (existing_edges lv) r)) =
     (if rel_collection (snd r) = c \<and> is_same_edge (declared_edge (snd r)) old = Inr False
      then [Replace_edge_definition (declared_edge (snd r))] else [])"
proof -
  from existing_edges_key [OF assms]
  have "edge_collection (declared_edge (snd r)) = edge_collection old"
    by (simp add: declared_edge_def)
  from is_same_edge_eq [OF this] show ?thesis
    using assms by (auto simp: sync_relation_def Let_def declared_edge_def)
qed

lemma replace_in_relation_other:
  assumes "rel_collection (snd r) \<noteq> c"
  shows "filter (is_replace_for c) (projr (sync_relation (existing_edges lv) r)) = []"
proof -
  obtain evs where evs: "sync_relation (existing_edges lv) r = Inr evs"
    using sync_relation_returns by blast
  then have "filter (is_replace_for c) evs = []"
    using assms
    by (auto simp: sync_relation_def Let_def declared_edge_def
          split: option.splits sum.splits if_splits)
  then show ?thesis by (simp add: evs)
qed

lemma replace_in_relations:
  assumes "distinct (map (\<lambda>r. rel_collection (snd r)) rs)" "r \<in> set rs"
    "map_of (existing_edges lv) (rel_collection (snd r)) = Some old"
  shows "filter (is_replace_for (rel_collection (snd r)))
           (concat (map (\<lambda>r. projr (sync_relation (existing_edges lv) r)) rs)) =
     (if is_same_edge (declared_edge (snd r)) old = Inr False
      then [Replace_edge_definition (declared_edge (snd r))] else [])"
  using assms(1,2)
proof (induction rs)
  case Nil then show ?case by simp
next
  case (Cons x rs)
  show ?case
  proof (cases "x = r")
    case True
    have "\<forall>y\<in>set rs. rel_collection (snd y) \<noteq> rel_collection (snd r)"
      using Cons.prems(1) True by (force simp: image_iff)
    then have "filter (is_replace_for (rel_collection (snd r)))
           (concat (map (\<lambda>r. projr (sync_relation (existing_edges lv) r)) rs)) = []"
      by (induction rs) (simp_all add: replace_in_relation_other)
    then show ?thesis using True replace_in_relation [OF assms(3), of "rel_collection (snd r)"] by simp
  next
    case False
    then have "r \<in> set rs" using Cons.prems(2) by simp
    moreover have "rel_collection (snd x) \<noteq> rel_collection (snd r)"
      using Cons.prems(1) \<open>r \<in> set rs\<close> by (force simp: image_iff)
    ultimately show ?thesis
      using Cons.IH Cons.prems(1) by (simp add: replace_in_relation_other)
  qed
qed

lemma no_replace_in_vertex: "filter (is_replace_for c) (concat (map (sync_vertex lv) vs)) = []"
  by (induction vs) (simp_all add: sync_vertex_def Let_def)

lemma no_replace_in_edge_collection:
  "filter (is_replace_for c) (concat (map (sync_edge_collection lv) rs)) = []"
  by (induction rs) (simp_all add: sync_edge_collection_def Let_def)

lemma no_replace_in_stale: "filter (is_replace_for c) (concat (map (sync_stale g) es)) = []"
  by (induction es) (simp_all add: sync_stale_def)

text \<open>
  C1, amended. In a pass over an existing graph, take a declared relation whose edge
  collection has a live edge definition, each edge collection being declared by one
  relation. When the source and target lists of both definitions are free of duplicates,
  the comparison returns whether the source sets and the target sets are equal, the
  pass raises nothing, and the calls replacing that edge definition are none if the sets
  are equal and exactly one, carrying the declared shape, if they are not.
\<close>

theorem replace_iff_not_equivalent:
  assumes "r \<in> set (edges g)"
    and "distinct (map (\<lambda>r. rel_collection (snd r)) (edges g))"
    and "map_of (existing_edges lv) (rel_collection (snd r)) = Some old"
    and "distinct (cols_from (snd r))" and "distinct (cols_to (snd r))"
    and "distinct (from_vertex_collections old)" and "distinct (to_vertex_collections old)"
  shows "snd (update_graph g lv) = None
    \<and> edge_collection old = rel_collection (snd r)
    \<and> is_same_edge (declared_edge (snd r)) old =
        Inr (set (cols_from (snd r)) = set (from_vertex_collections old)
             \<and> set (cols_to (snd r)) = set (to_vertex_collections old))
    \<and> filter (is_replace_for (rel_collection (snd r))) (fst (update_graph g lv)) =
        (if set (cols_from (snd r)) = set (from_vertex_collections old)
            \<and> set (cols_to (snd r)) = set (to_vertex_collections old)
         then [] else [Replace_edge_definition (declared_edge (snd r))])"
proof -
  have nm: "edge_collection (declared_edge (snd r)) = edge_collection old"
    using existing_edges_key [OF assms(3)] by (simp add: declared_edge_def)
  have same: "is_same_edge (declared_edge (snd r)) old =
        Inr (set (cols_from (snd r)) = set (from_vertex_collections old)
             \<and> set (cols_to (snd r)) = set (to_vertex_collections old))"
    using is_same_edge_distinct [OF nm] assms(4-7) by (simp add: declared_edge_def)
  show ?thesis
    using nm same replace_in_relations [OF assms(2,1,3)]
    by (simp add: update_graph_trace no_replace_in_vertex no_replace_in_edge_collection
          no_replace_in_stale declared_edge_def)
qed


text \<open>
  C1, as the claim states it, fails where a list repeats a name: the comparison first
  compares the lengths of the lists. The declared sources \<open>people, people\<close> and the live
  sources \<open>people\<close> are equal as sets, yet the definitions are found different and the
  pass replaces the live one. (With the same lengths only the declared names are looked
  up in the live list: \<open>people, people\<close> against \<open>people, cities\<close> is found the same.)
\<close>

theorem replace_despite_equal_sets:
  "map_of (existing_edges dup_live) ''lives_in''
     = Some \<lparr> edge_collection = ''lives_in'', from_vertex_collections = [''people''],
              to_vertex_collections = [''cities''] \<rparr>
   \<and> set [''people'', ''people''] = set [''people'']
   \<and> is_same_edge
        \<lparr> edge_collection = ''lives_in'', from_vertex_collections = [''people'', ''people''],
          to_vertex_collections = [''cities''] \<rparr>
        \<lparr> edge_collection = ''lives_in'', from_vertex_collections = [''people''],
          to_vertex_collections = [''cities''] \<rparr> = Inr False
   \<and> filter (is_replace_for ''lives_in'') (fst (update_graph dup_graph dup_live))
     = [Replace_edge_definition
          \<lparr> edge_collection = ''lives_in'', from_vertex_collections = [''people'', ''people''],
            to_vertex_collections = [''cities''] \<rparr>]
   \<and> is_same_edge
        \<lparr> edge_collection = ''lives_in'', from_vertex_collections = [''people'', ''people''],
          to_vertex_collections = [''cities''] \<rparr>
        \<lparr> edge_collection = ''lives_in'', from_vertex_collections = [''people'', ''cities''],
          to_vertex_collections = [''cities''] \<rparr> = Inr True"
  by (simp add: existing_edges_def py_dict_def dup_live_def dup_graph_def is_same_edge_def
        update_graph_def sync_vertex_def sync_edge_collection_def sync_relation_def
        declared_edge_def sync_stale_def Let_def)


theorem replace_iff_not_equivalent_witness:
  "filter (is_replace_for ''lives_in'') (fst (update_graph example_graph example_live))
     = [Replace_edge_definition
          \<lparr> edge_collection = ''lives_in'', from_vertex_collections = [''people''],
            to_vertex_collections = [''cities''] \<rparr>]
   \<and> snd (update_graph example_graph example_live) = None"
  using replace_iff_not_equivalent [of
      "(''lives_in'', \<lparr> rel_collection = ''lives_in'', cols_from = [''people''], cols_to = [''cities''] \<rparr>)"
      example_graph example_live
      "\<lparr> edge_collection = ''lives_in'', from_vertex_collections = [''people'', ''towns''],
         to_vertex_collections = [''cities''] \<rparr>"]
  by (simp add: example_graph_def example_live_def existing_edges_def py_dict_def declared_edge_def)

lemma count_list_concat_zero:
  "(\<And>x. x \<in> set xs \<Longrightarrow> ev \<notin> set (f x)) \<Longrightarrow> count_list (concat (map f xs)) ev = 0"
  by (induction xs) (simp_all add: count_list_0_iff)

lemma not_in_concat: "(\<And>x. x \<in> set xs \<Longrightarrow> ev \<notin> set (f x)) \<Longrightarrow> ev \<notin> set (concat (map f xs))"
  by auto

lemma relation_events_kinds:
  assumes "sync_relation ex r = Inr evs" "ev \<in> set evs"
  shows "(\<exists>m. ev = Log_info m) \<or> (\<exists>d. ev = Create_edge_definition d)
         \<or> (\<exists>d. ev = Replace_edge_definition d)"
  using assms
  by (auto simp: sync_relation_def Let_def split: option.splits sum.splits if_splits)

lemma delete_not_in_relation:
  "Delete_edge_definition k \<notin> set (projr (sync_relation (existing_edges lv) r))
   \<and> Delete_collection c \<notin> set (projr (sync_relation (existing_edges lv) r))"
proof -
  obtain evs where evs: "sync_relation (existing_edges lv) r = Inr evs"
    using sync_relation_returns by blast
  show ?thesis using relation_events_kinds [OF evs] by (auto simp: evs)
qed

lemma delete_not_in_vertex:
  "Delete_edge_definition k \<notin> set (sync_vertex lv v) \<and> Delete_collection c \<notin> set (sync_vertex lv v)"
  by (simp add: sync_vertex_def Let_def)

lemma delete_not_in_edge_collection:
  "Delete_edge_definition k \<notin> set (sync_edge_collection lv r)
   \<and> Delete_collection c \<notin> set (sync_edge_collection lv r)"
  by (simp add: sync_edge_collection_def Let_def)

lemma count_delete_stale:
  "distinct (map fst es) \<Longrightarrow>
   count_list (concat (map (sync_stale g) es)) (Delete_edge_definition k) =
     (if k \<in> fst ` set es \<and> k \<notin> set (graph_connections g) then 1 else 0)"
  by (induction es) (auto simp: sync_stale_def image_iff)

lemma stale_events:
  "ev \<in> set (concat (map (sync_stale g) es)) =
     (\<exists>k ee. (k, ee) \<in> set es \<and> k \<notin> set (graph_connections g)
        \<and> (ev = Log_warning (Dropping_edge ee) \<or> ev = Delete_edge_definition k))"
  by (induction es) (auto simp: sync_stale_def split: if_splits)

text \<open>
  C2. In a pass over an existing graph, for a live edge definition whose edge collection
  is the relation of no declared connection: the pass raises nothing, it calls
  \<open>delete_edge_definition\<close> for that edge collection exactly once, it logs the warning
  with the stale definition, every \<open>delete_edge_definition\<close> call of the pass is for a
  live edge collection without a declared connection, and no collection is dropped.
\<close>

theorem stale_edge_definition_deleted:
  assumes "e \<in> set (edge_definitions lv)"
    and "edge_collection e \<notin> set (graph_connections g)"
  shows "snd (update_graph g lv) = None
    \<and> count_list (fst (update_graph g lv)) (Delete_edge_definition (edge_collection e)) = 1
    \<and> (\<exists>ee. map_of (existing_edges lv) (edge_collection e) = Some ee
           \<and> Log_warning (Dropping_edge ee) \<in> set (fst (update_graph g lv)))
    \<and> (\<forall>k. Delete_edge_definition k \<in> set (fst (update_graph g lv)) \<longrightarrow>
           k \<in> edge_collection ` set (edge_definitions lv) \<and> k \<notin> set (graph_connections g))
    \<and> (\<forall>c. Delete_collection c \<notin> set (fst (update_graph g lv)))"
proof -
  let ?k = "edge_collection e"
  have key: "?k \<in> fst ` set (existing_edges lv)"
    using assms(1) by (simp add: existing_edges_keys)
  then obtain ee where ee: "(?k, ee) \<in> set (existing_edges lv)" by auto
  then have look: "map_of (existing_edges lv) ?k = Some ee"
    using existing_edges_distinct by simp
  have c1: "count_list (fst (update_graph g lv)) (Delete_edge_definition ?k) = 1"
    using key assms(2)
    by (simp add: update_graph_trace count_list_concat_zero delete_not_in_vertex
          delete_not_in_edge_collection delete_not_in_relation
          count_delete_stale [OF existing_edges_distinct])
  have c2: "Log_warning (Dropping_edge ee) \<in> set (fst (update_graph g lv))"
    using ee assms(2) by (simp add: update_graph_trace stale_events del: set_concat) blast
  have c3: "\<forall>k. Delete_edge_definition k \<in> set (fst (update_graph g lv)) \<longrightarrow>
           k \<in> edge_collection ` set (edge_definitions lv) \<and> k \<notin> set (graph_connections g)"
  proof (intro allI impI)
    fix k assume "Delete_edge_definition k \<in> set (fst (update_graph g lv))"
    then have "Delete_edge_definition k \<in> set (concat (map (sync_stale g) (existing_edges lv)))"
      using delete_not_in_vertex delete_not_in_edge_collection delete_not_in_relation
      by (auto simp: update_graph_trace)
    then obtain ee' where "(k, ee') \<in> set (existing_edges lv)" "k \<notin> set (graph_connections g)"
      unfolding stale_events by auto
    then show "k \<in> edge_collection ` set (edge_definitions lv) \<and> k \<notin> set (graph_connections g)"
      using existing_edges_keys [of lv] by force
  qed
  have c4: "\<forall>c. Delete_collection c \<notin> set (fst (update_graph g lv))"
    using delete_not_in_vertex delete_not_in_edge_collection delete_not_in_relation
    by (auto simp: update_graph_trace sync_stale_def split: if_splits)
  show ?thesis using c1 c2 c3 c4 look by (simp add: update_graph_trace)
qed


theorem stale_edge_definition_deleted_witness:
  "count_list (fst (update_graph example_graph example_live)) (Delete_edge_definition ''old_edge'') = 1
   \<and> (\<forall>c. Delete_collection c \<notin> set (fst (update_graph example_graph example_live)))"
  using stale_edge_definition_deleted [of
      "\<lparr> edge_collection = ''old_edge'', from_vertex_collections = [''people''],
         to_vertex_collections = [''cities''] \<rparr>" example_live example_graph]
  by (simp add: example_graph_def example_live_def)

section \<open>Properties of the change-tracked persister\<close>

lemma heap_emit [simp]: "heap (emit ev w) = heap w"
  and trace_emit [simp]: "trace (emit ev w) = trace w @ [ev]"
  by (simp_all add: emit_def)

lemma heap_set_entity [simp]: "heap (set_entity a e w) b = (if b = a then e else heap w b)"
  and trace_set_entity [simp]: "trace (set_entity a e w) = trace w"
  by (simp_all add: set_entity_def)

lemma heap_attach [simp]:
  "heap (attach a w) b = (if b = a then (heap w a)\<lparr> attached := True \<rparr> else heap w b)"
  and trace_attach [simp]: "trace (attach a w) = trace w"
  by (simp_all add: attach_def)

lemma heap_clear_dirty [simp]:
  "heap (clear_dirty a w) b = (if b = a then (heap w a)\<lparr> dirty := {} \<rparr> else heap w b)"
  and trace_clear_dirty [simp]: "trace (clear_dirty a w) = trace w"
  by (simp_all add: clear_dirty_def)

lemma heap_dispatch_other [simp]: "b \<noteq> a \<Longrightarrow> heap (dispatch c a h w) b = heap w b"
  and trace_dispatch [simp]: "trace (dispatch c a h w) = trace w @ [Dispatch a h]"
  and attached_dispatch [simp]: "attached (heap (dispatch c a h w) b) = attached (heap w b)"
  and collection_dispatch [simp]: "collection (heap (dispatch c a h w) b) = collection (heap w b)"
  and dirty_dispatch: "dirty (heap (dispatch c a h w) a) = dirty (hook c h (heap w a))"
  by (simp_all add: dispatch_def Let_def)

lemma pre_process_null_identity_free: "null_identity_free (entity_pre_process d)"
  by (simp add: entity_pre_process_def null_identity_free_def delete_conv')




lemma clean_trace_append [simp]: "clean_trace (xs @ ys) = (clean_trace xs \<and> clean_trace ys)"
  and clean_trace_Nil [simp]: "clean_trace []"
  and clean_trace_Cons [simp]:
    "clean_trace (ev # tr) = (list_all null_identity_free (payloads ev) \<and> clean_trace tr)"
  by (simp_all add: clean_trace_def)

lemma update_clean_trace:
  "clean_trace (trace w) \<Longrightarrow> clean_trace (trace (snd (update c a od w)))"
  by (simp add: update_def Let_def pre_process_null_identity_free)

lemma add_clean_trace:
  "clean_trace (trace w) \<Longrightarrow> clean_trace (trace (snd (add c a ip w)))"
  using update_clean_trace [of "emit (Has (collection (heap w a)) (key_of (heap w a))) w" c a False]
  by (auto simp: add_def Let_def pre_process_null_identity_free split: prod.splits)

lemma alist_update_set: "set (AList.update k v al) \<subseteq> insert (k, v) (set al)"
  by (induction al) auto

lemma groups_clean_append:
  assumes "groups_clean colls" "null_identity_free d"
  shows "groups_clean (group_append cn d a colls)"
proof -
  define old where "old = (case map_of colls cn of None \<Rightarrow> ([], []) | Some g \<Rightarrow> g)"
  have old: "list_all null_identity_free (fst old)"
    using assms(1) unfolding old_def
    by (auto simp: groups_clean_def list_all_iff split: option.splits dest!: map_of_SomeD)
  have "\<And>g. g \<in> set (AList.update cn (fst old @ [d], snd old @ [a]) colls) \<Longrightarrow>
          list_all null_identity_free (fst (snd g))"
  proof -
    fix g assume "g \<in> set (AList.update cn (fst old @ [d], snd old @ [a]) colls)"
    then have "g = (cn, fst old @ [d], snd old @ [a]) \<or> g \<in> set colls"
      using alist_update_set [of cn "(fst old @ [d], snd old @ [a])" colls] by auto
    then show "list_all null_identity_free (fst (snd g))"
      using old assms by (auto simp: groups_clean_def list_all_iff)
  qed
  then show ?thesis
    by (simp add: groups_clean_def group_append_def Let_def list_all_iff old_def)
qed

lemma bulk_add_collect_clean:
  "clean_trace (trace w) \<Longrightarrow> groups_clean colls \<Longrightarrow>
   clean_trace (trace (snd (bulk_add_collect c od xs colls w)))
   \<and> (\<forall>g. fst (bulk_add_collect c od xs colls w) = Inr g \<longrightarrow> groups_clean g)"
proof (induction xs arbitrary: colls w)
  case Nil then show ?case by simp
next
  case (Cons a as)
  show ?case
  proof (cases "od \<and> dirty (heap w a) = {}")
    case True then show ?thesis using Cons.prems by simp
  next
    case False
    let ?data = "entity_pre_process
        (if od then dirty_only (dirty (heap w a)) (model_dump (heap w a)) else model_dump (heap w a))"
    let ?w1 = "dispatch c a Pre_update w"
    let ?colls = "group_append (collection (heap ?w1 a)) ?data a colls"
    let ?w2 = "clear_dirty a (attach a ?w1)"
    have step: "bulk_add_collect c od (a # as) colls w = bulk_add_collect c od as ?colls ?w2"
      using False by (auto simp: Let_def)
    have "clean_trace (trace ?w2)" using Cons.prems(1) by simp
    moreover have "groups_clean ?colls"
      by (rule groups_clean_append [OF Cons.prems(2) pre_process_null_identity_free])
    ultimately show ?thesis unfolding step by (rule Cons.IH)
  qed
qed

lemma bulk_update_collect_clean:
  "clean_trace (trace w) \<Longrightarrow> groups_clean colls \<Longrightarrow>
   clean_trace (trace (snd (bulk_update_collect c od xs colls w)))
   \<and> (\<forall>g. fst (bulk_update_collect c od xs colls w) = Inr g \<longrightarrow> groups_clean g)"
proof (induction xs arbitrary: colls w)
  case Nil then show ?case by simp
next
  case (Cons a as)
  show ?case
  proof (cases "od \<and> dirty (heap w a) = {}")
    case True then show ?thesis using Cons.prems by simp
  next
    case False
    let ?w1 = "dispatch c a Pre_update w"
    let ?data = "entity_pre_process
        (if od then dirty_only (dirty (heap ?w1 a)) (model_dump (heap ?w1 a))
         else model_dump (heap ?w1 a))"
    let ?colls = "group_append (collection (heap ?w1 a)) ?data a colls"
    let ?w2 = "attach a ?w1"
    have step: "bulk_update_collect c od (a # as) colls w = bulk_update_collect c od as ?colls ?w2"
      using False by (auto simp: Let_def)
    have "clean_trace (trace ?w2)" using Cons.prems(1) by simp
    moreover have "groups_clean ?colls"
      by (rule groups_clean_append [OF Cons.prems(2) pre_process_null_identity_free])
    ultimately show ?thesis unfolding step by (rule Cons.IH)
  qed
qed

lemma bulk_post_clean:
  "clean_trace (trace w) \<Longrightarrow> clean_trace (trace (snd (bulk_post c h res num xs w)))"
proof (induction xs arbitrary: num w)
  case Nil then show ?case by simp
next
  case (Cons a as)
  show ?case
  proof (cases "num < length res")
    case True
    then show ?thesis using Cons.prems by (simp add: Let_def Cons.IH)
  next
    case False
    then show ?thesis using Cons.prems by (simp add: Let_def)
  qed
qed

lemma bulk_add_send_clean:
  "clean_trace (trace w) \<Longrightarrow> groups_clean gs \<Longrightarrow>
   clean_trace (trace (snd (bulk_add_send c gs w)))"
proof (induction gs arbitrary: w)
  case Nil then show ?case by simp
next
  case (Cons g gs)
  obtain cn ds os where g: "g = (cn, ds, os)" by (cases g)
  let ?w1 = "emit (Insert_many cn ds) w"
  have c1: "clean_trace (trace ?w1)" using Cons.prems by (simp add: g groups_clean_def)
  have c2: "clean_trace (trace (snd (bulk_post c Post_add (insert_many_result c cn ds) 0 os ?w1)))"
    by (rule bulk_post_clean [OF c1])
  have gs: "groups_clean gs" using Cons.prems(2) by (simp add: groups_clean_def)
  show ?case
    using c2 Cons.IH [OF _ gs]
    by (auto simp: g Let_def split: prod.splits option.splits)
qed

lemma bulk_update_send_clean:
  "clean_trace (trace w) \<Longrightarrow> groups_clean gs \<Longrightarrow>
   clean_trace (trace (snd (bulk_update_send c gs w)))"
proof (induction gs arbitrary: w)
  case Nil then show ?case by simp
next
  case (Cons g gs)
  obtain cn ds os where g: "g = (cn, ds, os)" by (cases g)
  let ?w1 = "emit (Update_many cn ds) w"
  have c1: "clean_trace (trace ?w1)" using Cons.prems by (simp add: g groups_clean_def)
  have c2: "clean_trace (trace (snd (bulk_post c Post_update (update_many_result c cn ds) 0 os ?w1)))"
    by (rule bulk_post_clean [OF c1])
  have gs: "groups_clean gs" using Cons.prems(2) by (simp add: groups_clean_def)
  show ?case
    using c2 Cons.IH [OF _ gs]
    by (auto simp: g Let_def split: prod.splits option.splits)
qed

lemma bulk_add_clean_trace:
  assumes "clean_trace (trace w)"
  shows "clean_trace (trace (snd (bulk_add c xs od w)))"
proof -
  have nil: "groups_clean []" by (simp add: groups_clean_def)
  note col = bulk_add_collect_clean [OF assms nil, of c od xs]
  show ?thesis
  proof (cases "bulk_add_collect c od xs [] w")
    case (Pair r w1)
    show ?thesis
    proof (cases r)
      case (Inl a)
      then show ?thesis using col Pair by (simp add: bulk_add_def)
    next
      case (Inr colls)
      then have "clean_trace (trace w1)" "groups_clean colls" using col Pair by simp_all
      from bulk_add_send_clean [OF this, of c] show ?thesis
        using Pair Inr by (auto simp: bulk_add_def split: prod.splits option.splits)
    qed
  qed
qed

lemma bulk_update_clean_trace:
  assumes "clean_trace (trace w)"
  shows "clean_trace (trace (snd (bulk_update c xs od w)))"
proof -
  have nil: "groups_clean []" by (simp add: groups_clean_def)
  note col = bulk_update_collect_clean [OF assms nil, of c od xs]
  show ?thesis
  proof (cases "bulk_update_collect c od xs [] w")
    case (Pair r w1)
    show ?thesis
    proof (cases r)
      case (Inl a)
      then show ?thesis using col Pair by (simp add: bulk_update_def)
    next
      case (Inr colls)
      then have "clean_trace (trace w1)" "groups_clean colls" using col Pair by simp_all
      from bulk_update_send_clean [OF this, of c] show ?thesis
        using Pair Inr by (auto simp: bulk_update_def split: prod.splits option.splits)
    qed
  qed
qed

text \<open>
  C6. Every document that \<open>add\<close>, \<open>update\<close>, \<open>bulk_add\<close> or \<open>bulk_update\<close> hands to the
  client, single or within a batch, has passed \<open>_entity_pre_process\<close>: it carries neither
  \<open>_key\<close> nor \<open>_rev\<close> with the value \<open>None\<close>. Stated as preservation: a trace without
  such a document stays without one.
\<close>

theorem null_identity_never_sent:
  assumes "clean_trace (trace w)"
  shows "clean_trace (trace (snd (add c a if_present w)))
    \<and> clean_trace (trace (snd (update c a only_dirty w)))
    \<and> clean_trace (trace (snd (bulk_add c entity_list only_dirty w)))
    \<and> clean_trace (trace (snd (bulk_update c entity_list only_dirty w)))"
  using assms
  by (simp add: add_clean_trace update_clean_trace bulk_add_clean_trace bulk_update_clean_trace)


theorem null_identity_never_sent_witness:
  "clean_trace (trace example_world)
   \<and> trace (snd (add example_env 0 None example_world))
       = [Dispatch 0 Pre_add, Insert ''people'' [(''name'', PStr ''Ann'')], Dispatch 0 Post_add]
   \<and> clean_trace (trace (snd (add example_env 0 None example_world)))
   \<and> clean_trace (trace (snd (update example_env 0 True example_world)))
   \<and> clean_trace (trace (snd (bulk_add example_env [0, 1] False example_world)))
   \<and> clean_trace (trace (snd (bulk_update example_env [0, 1] True example_world)))"
proof -
  have h: "clean_trace (trace example_world)" by (simp add: example_world_def)
  have t: "trace (snd (add example_env 0 None example_world))
       = [Dispatch 0 Pre_add, Insert ''people'' [(''name'', PStr ''Ann'')], Dispatch 0 Post_add]"
    by (simp add: add_def Let_def example_world_def example_env_def new_person_def
          entity_pre_process_def model_dump_def)
  show ?thesis
    using h t null_identity_never_sent [OF h, of example_env 0 None True "[0, 1]"]
      null_identity_never_sent [OF h, of example_env 0 None False "[0, 1]"]
    by simp
qed




lemma bulk_add_collect_short:
  "bulk_add_collect c True xs colls w = (Inl b, w') \<Longrightarrow>
   \<exists>pre post. xs = pre @ b # post
     \<and> trace w' = trace w @ map (\<lambda>a. Dispatch a Pre_update) pre
     \<and> (\<forall>a\<in>set pre. attached (heap w' a) \<and> dirty (heap w' a) = {})
     \<and> dirty (heap w' b) = {}
     \<and> (\<forall>a. a \<notin> set pre \<longrightarrow> heap w' a = heap w a)
     \<and> (distinct xs \<longrightarrow> (\<forall>a\<in>set pre. dirty (heap w a) \<noteq> {}))"
proof (induction xs arbitrary: colls w)
  case Nil then show ?case by simp
next
  case (Cons x xs)
  show ?case
  proof (cases "dirty (heap w x) = {}")
    case True
    then have "b = x" "w' = w" using Cons.prems by simp_all
    then show ?thesis using True by (rule_tac x = "[]" in exI, rule_tac x = xs in exI) simp
  next
    case False
    let ?w1 = "dispatch c x Pre_update w"
    let ?data = "entity_pre_process (dirty_only (dirty (heap w x)) (model_dump (heap w x)))"
    let ?colls = "group_append (collection (heap ?w1 x)) ?data x colls"
    let ?w2 = "clear_dirty x (attach x ?w1)"
    have step: "bulk_add_collect c True xs ?colls ?w2 = (Inl b, w')"
      using False Cons.prems by (simp add: Let_def)
    from Cons.IH [OF step] obtain pre post where
      xs: "xs = pre @ b # post"
      and tr: "trace w' = trace ?w2 @ map (\<lambda>a. Dispatch a Pre_update) pre"
      and pr: "\<forall>a\<in>set pre. attached (heap w' a) \<and> dirty (heap w' a) = {}"
      and db: "dirty (heap w' b) = {}"
      and fr: "\<forall>a. a \<notin> set pre \<longrightarrow> heap w' a = heap ?w2 a"
      and di: "distinct xs \<longrightarrow> (\<forall>a\<in>set pre. dirty (heap ?w2 a) \<noteq> {})"
      by blast
    have x_ok: "attached (heap w' x) \<and> dirty (heap w' x) = {}"
    proof (cases "x \<in> set pre")
      case True then show ?thesis using pr by simp
    next
      case False then show ?thesis using fr by simp
    qed
    have "x # xs = (x # pre) @ b # post" using xs by simp
    moreover have "trace w' = trace w @ map (\<lambda>a. Dispatch a Pre_update) (x # pre)"
      using tr by simp
    moreover have "\<forall>a\<in>set (x # pre). attached (heap w' a) \<and> dirty (heap w' a) = {}"
      using pr x_ok by simp
    moreover have "\<forall>a. a \<notin> set (x # pre) \<longrightarrow> heap w' a = heap w a"
      using fr by simp
    moreover have "distinct (x # xs) \<longrightarrow> (\<forall>a\<in>set (x # pre). dirty (heap w a) \<noteq> {})"
    proof
      assume d: "distinct (x # xs)"
      then have "x \<notin> set pre" using xs by auto
      then have "\<forall>a\<in>set pre. heap ?w2 a = heap w a" by auto
      then show "\<forall>a\<in>set (x # pre). dirty (heap w a) \<noteq> {}"
        using di d False by auto
    qed
    ultimately show ?thesis using db by blast
  qed
qed

lemma bulk_update_collect_short:
  "bulk_update_collect c True xs colls w = (Inl b, w') \<Longrightarrow>
   \<exists>pre post. xs = pre @ b # post
     \<and> trace w' = trace w @ map (\<lambda>a. Dispatch a Pre_update) pre
     \<and> (\<forall>a\<in>set pre. attached (heap w' a))
     \<and> dirty (heap w' b) = {}
     \<and> (\<forall>a. a \<notin> set pre \<longrightarrow> heap w' a = heap w a)
     \<and> (distinct xs \<longrightarrow> (\<forall>a\<in>set pre. dirty (heap w a) \<noteq> {}))"
proof (induction xs arbitrary: colls w)
  case Nil then show ?case by simp
next
  case (Cons x xs)
  show ?case
  proof (cases "dirty (heap w x) = {}")
    case True
    then have "b = x" "w' = w" using Cons.prems by simp_all
    then show ?thesis using True by (rule_tac x = "[]" in exI, rule_tac x = xs in exI) simp
  next
    case False
    let ?w1 = "dispatch c x Pre_update w"
    let ?data = "entity_pre_process (dirty_only (dirty (heap ?w1 x)) (model_dump (heap ?w1 x)))"
    let ?colls = "group_append (collection (heap ?w1 x)) ?data x colls"
    let ?w2 = "attach x ?w1"
    have step: "bulk_update_collect c True xs ?colls ?w2 = (Inl b, w')"
      using False Cons.prems by (simp add: Let_def)
    from Cons.IH [OF step] obtain pre post where
      xs: "xs = pre @ b # post"
      and tr: "trace w' = trace ?w2 @ map (\<lambda>a. Dispatch a Pre_update) pre"
      and pr: "\<forall>a\<in>set pre. attached (heap w' a)"
      and db: "dirty (heap w' b) = {}"
      and fr: "\<forall>a. a \<notin> set pre \<longrightarrow> heap w' a = heap ?w2 a"
      and di: "distinct xs \<longrightarrow> (\<forall>a\<in>set pre. dirty (heap ?w2 a) \<noteq> {})"
      by blast
    have x_ok: "attached (heap w' x)"
    proof (cases "x \<in> set pre")
      case True then show ?thesis using pr by simp
    next
      case False then show ?thesis using fr by simp
    qed
    have "x # xs = (x # pre) @ b # post" using xs by simp
    moreover have "trace w' = trace w @ map (\<lambda>a. Dispatch a Pre_update) (x # pre)"
      using tr by simp
    moreover have "\<forall>a\<in>set (x # pre). attached (heap w' a)"
      using pr x_ok by simp
    moreover have "\<forall>a. a \<notin> set (x # pre) \<longrightarrow> heap w' a = heap w a"
      using fr by simp
    moreover have "distinct (x # xs) \<longrightarrow> (\<forall>a\<in>set (x # pre). dirty (heap w a) \<noteq> {})"
    proof
      assume d: "distinct (x # xs)"
      then have "x \<notin> set pre" using xs by auto
      then have "\<forall>a\<in>set pre. heap ?w2 a = heap w a" by auto
      then show "\<forall>a\<in>set (x # pre). dirty (heap w a) \<noteq> {}"
        using di d False by auto
    qed
    ultimately show ?thesis using db by blast
  qed
qed



lemma filter_write_dispatches [simp]:
  "filter is_write (map (\<lambda>a. Dispatch a h) xs) = []"
  by (induction xs) simp_all






text \<open>
  C10. When \<open>bulk_add\<close> or \<open>bulk_update\<close> with \<open>only_dirty=True\<close> returns the entity \<open>b\<close>,
  the input splits into the entities processed before, \<open>b\<close>, and the rest; the call has
  added to the trace exactly one pre-update dispatch for each entity processed before and
  no remote call, and each of them is left attached to the persister (and, by
  \<open>bulk_add\<close>, with its dirty set cleared).
\<close>

theorem bulk_short_circuit_not_atomic:
  "(fst (bulk_add c xs True w) = Inr (Entity b) \<longrightarrow>
      (\<exists>pre post. xs = pre @ b # post
         \<and> trace (snd (bulk_add c xs True w)) = trace w @ map (\<lambda>a. Dispatch a Pre_update) pre
         \<and> (\<forall>a\<in>set pre. attached (heap (snd (bulk_add c xs True w)) a)
                          \<and> dirty (heap (snd (bulk_add c xs True w)) a) = {})))
   \<and> (fst (bulk_update c xs True w) = Inr (Entity b) \<longrightarrow>
      (\<exists>pre post. xs = pre @ b # post
         \<and> trace (snd (bulk_update c xs True w)) = trace w @ map (\<lambda>a. Dispatch a Pre_update) pre
         \<and> (\<forall>a\<in>set pre. attached (heap (snd (bulk_update c xs True w)) a))))"
proof (intro conjI impI)
  assume r: "fst (bulk_add c xs True w) = Inr (Entity b)"
  obtain x w' where col: "bulk_add_collect c True xs [] w = (x, w')" by (cases "bulk_add_collect c True xs [] w")
  with r have x: "x = Inl b"
    by (cases x) (auto simp: bulk_add_def split: prod.splits option.splits)
  have res: "snd (bulk_add c xs True w) = w'" by (simp add: bulk_add_def col x)
  from bulk_add_collect_short [OF col [unfolded x]] show
    "\<exists>pre post. xs = pre @ b # post
         \<and> trace (snd (bulk_add c xs True w)) = trace w @ map (\<lambda>a. Dispatch a Pre_update) pre
         \<and> (\<forall>a\<in>set pre. attached (heap (snd (bulk_add c xs True w)) a)
                          \<and> dirty (heap (snd (bulk_add c xs True w)) a) = {})"
    unfolding res by blast
next
  assume r: "fst (bulk_update c xs True w) = Inr (Entity b)"
  obtain x w' where col: "bulk_update_collect c True xs [] w = (x, w')" by (cases "bulk_update_collect c True xs [] w")
  with r have x: "x = Inl b"
    by (cases x) (auto simp: bulk_update_def split: prod.splits option.splits)
  have res: "snd (bulk_update c xs True w) = w'" by (simp add: bulk_update_def col x)
  from bulk_update_collect_short [OF col [unfolded x]] show
    "\<exists>pre post. xs = pre @ b # post
         \<and> trace (snd (bulk_update c xs True w)) = trace w @ map (\<lambda>a. Dispatch a Pre_update) pre
         \<and> (\<forall>a\<in>set pre. attached (heap (snd (bulk_update c xs True w)) a))"
    unfolding res by blast
qed


theorem bulk_short_circuit_not_atomic_witness:
  "fst (bulk_add example_env [0, 1, 2] True example_world) = Inr (Entity 2)
   \<and> fst (bulk_update example_env [0, 1, 2] True example_world) = Inr (Entity 2)
   \<and> \<not> attached (heap example_world 0) \<and> dirty (heap example_world 0) \<noteq> {}
   \<and> trace (snd (bulk_add example_env [0, 1, 2] True example_world))
       = [Dispatch 0 Pre_update, Dispatch 1 Pre_update]
   \<and> attached (heap (snd (bulk_add example_env [0, 1, 2] True example_world)) 0)
   \<and> dirty (heap (snd (bulk_add example_env [0, 1, 2] True example_world)) 0) = {}
   \<and> trace (snd (bulk_update example_env [0, 1, 2] True example_world))
       = [Dispatch 0 Pre_update, Dispatch 1 Pre_update]
   \<and> attached (heap (snd (bulk_update example_env [0, 1, 2] True example_world)) 0)"
proof -
  have a: "fst (bulk_add example_env [0, 1, 2] True example_world) = Inr (Entity 2)"
    by (simp add: bulk_add_def Let_def example_defs dispatch_def)
  have u: "fst (bulk_update example_env [0, 1, 2] True example_world) = Inr (Entity 2)"
    by (simp add: bulk_update_def Let_def example_defs dispatch_def)
  have i: "\<not> attached (heap example_world 0) \<and> dirty (heap example_world 0) \<noteq> {}"
    by (simp add: example_defs)
  have t: "trace example_world = []" by (simp add: example_defs)
  have split: "\<And>pre post. [0, 1, 2::nat] = pre @ 2 # post \<Longrightarrow> pre = [0, 1]"
    by (auto simp: Cons_eq_append_conv)
  from bulk_short_circuit_not_atomic [of example_env "[0, 1, 2]" example_world 2] a u
  obtain pre post pre' post' where
    p: "[0, 1, 2::nat] = pre @ 2 # post"
      "trace (snd (bulk_add example_env [0, 1, 2] True example_world))
         = trace example_world @ map (\<lambda>a. Dispatch a Pre_update) pre"
      "\<forall>a\<in>set pre. attached (heap (snd (bulk_add example_env [0, 1, 2] True example_world)) a)
           \<and> dirty (heap (snd (bulk_add example_env [0, 1, 2] True example_world)) a) = {}"
    and q: "[0, 1, 2::nat] = pre' @ 2 # post'"
      "trace (snd (bulk_update example_env [0, 1, 2] True example_world))
         = trace example_world @ map (\<lambda>a. Dispatch a Pre_update) pre'"
      "\<forall>a\<in>set pre'. attached (heap (snd (bulk_update example_env [0, 1, 2] True example_world)) a)"
    by blast
  have "pre = [0, 1]" "pre' = [0, 1]" using split p(1) q(1) by blast+
  then show ?thesis using a u i t p q by simp
qed

text \<open>
  C3. The pre-hook of \<open>bulk_add\<close> is not the hook of the single-entity path: for the same
  new entity \<open>add\<close> dispatches \<open>pre_add\<close>, \<open>bulk_add\<close> dispatches \<open>pre_update\<close>; both
  dispatch \<open>post_add\<close> afterwards.
\<close>

theorem bulk_add_fires_pre_update:
  "trace (snd (bulk_add example_env [0] False example_world))
     = [Dispatch 0 Pre_update, Insert_many ''people'' [[(''name'', PStr ''Ann'')]],
        Dispatch 0 Post_add]
   \<and> trace (snd (add example_env 0 None example_world))
     = [Dispatch 0 Pre_add, Insert ''people'' [(''name'', PStr ''Ann'')], Dispatch 0 Post_add]"
  by (simp add: bulk_add_def add_def Let_def example_defs entity_pre_process_def model_dump_def
        group_append_def)

subsection \<open>Grouping by collection\<close>

lemma group_of_append:
  "group_of (group_append cn d a colls) cn' =
     (if cn' = cn then (fst (group_of colls cn) @ [d], snd (group_of colls cn) @ [a])
      else group_of colls cn')"
  by (simp add: group_of_def group_append_def Let_def update_conv')

lemma keys_group_append:
  "fst ` set (group_append cn d a colls) = insert cn (fst ` set colls)"
  by (simp add: group_append_def Let_def dom_update)

lemma distinct_group_append:
  "distinct (map fst colls) \<Longrightarrow> distinct (map fst (group_append cn d a colls))"
  by (simp add: group_append_def Let_def distinct_update)

lemma collection_attach [simp]: "collection (heap (attach a w) b) = collection (heap w b)"
  and collection_clear_dirty [simp]: "collection (heap (clear_dirty a w) b) = collection (heap w b)"
  by simp_all

lemma collection_post_process [simp]:
  "collection (entity_post_process e res) = collection e"
  by (simp add: entity_post_process_def entity_setattr_def Let_def split: option.splits)

lemma bulk_add_collect_groups:
  assumes "bulk_add_collect c od xs colls w = (Inr g, w')" "distinct (map fst colls)"
  shows "distinct (map fst g)
    \<and> set (map fst g) = set (map fst colls) \<union> (\<lambda>a. collection (heap w a)) ` set xs
    \<and> (\<forall>cn. snd (group_of g cn)
            = snd (group_of colls cn) @ filter (\<lambda>a. collection (heap w a) = cn) xs)
    \<and> (\<forall>cn. length (fst (group_of g cn))
            = length (fst (group_of colls cn))
              + length (filter (\<lambda>a. collection (heap w a) = cn) xs))
    \<and> filter is_write (trace w') = filter is_write (trace w)
    \<and> (\<forall>a. collection (heap w' a) = collection (heap w a))"
  using assms
proof (induction xs arbitrary: colls w)
  case Nil then show ?case by simp
next
  case (Cons x xs)
  have nd: "\<not> (od \<and> dirty (heap w x) = {})" using Cons.prems(1) by auto
  let ?data = "entity_pre_process
        (if od then dirty_only (dirty (heap w x)) (model_dump (heap w x)) else model_dump (heap w x))"
  let ?w1 = "dispatch c x Pre_update w"
  let ?colls = "group_append (collection (heap w x)) ?data x colls"
  let ?w2 = "clear_dirty x (attach x ?w1)"
  have "bulk_add_collect c od (x # xs) colls w = bulk_add_collect c od xs ?colls ?w2"
    using nd by (auto simp: Let_def)
  then have step: "bulk_add_collect c od xs ?colls ?w2 = (Inr g, w')"
    using Cons.prems(1) by simp
  have col: "\<And>a. collection (heap ?w2 a) = collection (heap w a)" by simp
  note ih = Cons.IH [OF step distinct_group_append [OF Cons.prems(2)], unfolded col]
  have k: "set (map fst g)
      = set (map fst colls) \<union> (\<lambda>a. collection (heap w a)) ` set (x # xs)"
    using ih by (simp add: keys_group_append)
  have o: "\<forall>cn. snd (group_of g cn)
            = snd (group_of colls cn) @ filter (\<lambda>a. collection (heap w a) = cn) (x # xs)"
    using ih by (simp add: group_of_append)
  have d: "\<forall>cn. length (fst (group_of g cn))
            = length (fst (group_of colls cn))
              + length (filter (\<lambda>a. collection (heap w a) = cn) (x # xs))"
    using ih by (simp add: group_of_append)
  have t: "filter is_write (trace w') = filter is_write (trace w)"
    using ih by simp
  show ?case using ih k o d t by blast
qed


lemma bulk_post_writes:
  "filter is_write (trace (snd (bulk_post c h res num xs w))) = filter is_write (trace w)"
proof (induction xs arbitrary: num w)
  case Nil then show ?case by simp
next
  case (Cons a as)
  show ?case
  proof (cases "num < length res")
    case True then show ?thesis by (simp add: Let_def Cons.IH)
  next
    case False then show ?thesis by (simp add: Let_def)
  qed
qed

lemma bulk_add_send_writes:
  "bulk_add_send c g w = (None, w') \<Longrightarrow>
   filter is_write (trace w')
     = filter is_write (trace w) @ map (\<lambda>(cn, ds, os). Insert_many cn ds) g"
proof (induction g arbitrary: w)
  case Nil then show ?case by simp
next
  case (Cons x g)
  obtain cn ds os where x: "x = (cn, ds, os)" by (cases x)
  let ?w1 = "emit (Insert_many cn ds) w"
  obtain r w2 where p: "bulk_post c Post_add (insert_many_result c cn ds) 0 os ?w1 = (r, w2)"
    by (cases "bulk_post c Post_add (insert_many_result c cn ds) 0 os ?w1")
  have r: "r = None" and rest: "bulk_add_send c g w2 = (None, w')"
    using Cons.prems p by (auto simp: x Let_def split: option.splits)
  have "filter is_write (trace w2) = filter is_write (trace ?w1)"
    using bulk_post_writes [of c Post_add "insert_many_result c cn ds" 0 os ?w1] p by simp
  then show ?case using Cons.IH [OF rest] by (simp add: x)
qed

text \<open>
  The batching of \<open>bulk_add\<close>. When the call returns the mapping, the mapping has one
  entry for each collection of the input, the entities of an entry are the entities of
  that collection in input order, each with one document, and the writes of the call are
  one \<open>insert_many\<close> for each entry, in the order of the entries.
\<close>

lemma bulk_add_one_call_per_collection:
  assumes "fst (bulk_add c xs od w) = Inr (Collections g)"
  shows "distinct (map fst g)
    \<and> set (map fst g) = (\<lambda>a. collection (heap w a)) ` set xs
    \<and> (\<forall>cn ds os. (cn, ds, os) \<in> set g \<longrightarrow>
          os = filter (\<lambda>a. collection (heap w a) = cn) xs \<and> length ds = length os)
    \<and> filter is_write (trace (snd (bulk_add c xs od w)))
        = filter is_write (trace w) @ map (\<lambda>(cn, ds, os). Insert_many cn ds) g"
proof -
  obtain r w1 where col: "bulk_add_collect c od xs [] w = (r, w1)"
    by (cases "bulk_add_collect c od xs [] w")
  obtain e w2 where send: "bulk_add_send c g w1 = (e, w2)"
    by (cases "bulk_add_send c g w1")
  have r: "r = Inr g" and e: "e = None"
    using assms col send
    by (auto simp: bulk_add_def split: sum.splits prod.splits option.splits)
  have res: "snd (bulk_add c xs od w) = w2" by (simp add: bulk_add_def col r send e)
  note grp = bulk_add_collect_groups [OF col [unfolded r], simplified]
  have members: "\<forall>cn ds os. (cn, ds, os) \<in> set g \<longrightarrow>
          os = filter (\<lambda>a. collection (heap w a) = cn) xs \<and> length ds = length os"
  proof (intro allI impI)
    fix cn ds os assume "(cn, ds, os) \<in> set g"
    then have "map_of g cn = Some (ds, os)" using grp by simp
    then have "group_of g cn = (ds, os)" by (simp add: group_of_def)
    moreover have "group_of [] cn = ([], [])" by (simp add: group_of_def)
    ultimately show "os = filter (\<lambda>a. collection (heap w a) = cn) xs \<and> length ds = length os"
      using grp by (metis append_Nil fst_conv snd_conv list.size(3) add_0)
  qed
  have "filter is_write (trace w2)
        = filter is_write (trace w) @ map (\<lambda>(cn, ds, os). Insert_many cn ds) g"
    using bulk_add_send_writes [OF send [unfolded e]] grp by simp
  then show ?thesis using grp members res by simp
qed

end
